theory Spec2Isabelle
  imports Complex_Main "HOL-Library.Multiset"
begin

section \<open>Python library operations used by the quiz engine\<close>

text \<open>
  The exceptions the engine's code can raise are values: every operation that can raise
  returns \<open>py_error + 'a\<close>, with \<open>Inl\<close> for the exception.
\<close>

datatype py_error = IndexError | ValueError | TypeError | ZeroDivisionError

text \<open>
  \<^verbatim>\<open>random\<close> is the interpreter's global generator. Its state is an explicit argument:
  the infinite sequence of raw values it will produce next. \<^verbatim>\<open>randbelow(n)\<close> consumes one
  value and reduces it into \<open>[0, n)\<close>, so every sequence of choices the real generator can
  make is the behaviour of some \<open>rng\<close>.
\<close>

type_synonym rng = "nat \<Rightarrow> nat"

definition randbelow :: "rng \<Rightarrow> nat \<Rightarrow> nat \<times> rng" where
  "randbelow g n = (g 0 mod n, \<lambda>k. g (Suc k))"

text \<open>The simultaneous assignment \<^verbatim>\<open>x[i], x[j] = x[j], x[i]\<close>.\<close>

definition swap_items :: "'a list \<Rightarrow> nat \<Rightarrow> nat \<Rightarrow> 'a list" where
  "swap_items xs i j = xs[i := xs ! j, j := xs ! i]"

text \<open>
  \<^verbatim>\<open>random.shuffle(x)\<close>:
  \<^verbatim>\<open>for i in reversed(range(1, len(x))): j = randbelow(i + 1); x[i], x[j] = x[j], x[i]\<close>.
  The first argument of the loop is the current \<open>i\<close>; the loop ends below 1.
\<close>

fun shuffle_loop :: "nat \<Rightarrow> 'a list \<Rightarrow> rng \<Rightarrow> 'a list \<times> rng" where
  "shuffle_loop 0 xs g = (xs, g)"
| "shuffle_loop (Suc k) xs g =
     (case randbelow g (Suc k + 1) of
        (j, g') \<Rightarrow> shuffle_loop k (swap_items xs (Suc k) j) g')"

definition shuffle :: "'a list \<Rightarrow> rng \<Rightarrow> 'a list \<times> rng" where
  "shuffle xs g = shuffle_loop (length xs - 1) xs g"

text \<open>\<^verbatim>\<open>xs.index(x)\<close>: the first position of \<open>x\<close>, \<^verbatim>\<open>ValueError\<close> when it is absent.\<close>

fun list_index :: "'a list \<Rightarrow> 'a \<Rightarrow> py_error + nat" where
  "list_index [] x = Inl ValueError"
| "list_index (y # ys) x =
     (if y = x then Inr 0
      else case list_index ys x of Inl err \<Rightarrow> Inl err | Inr n \<Rightarrow> Inr (Suc n))"

text \<open>
  \<^verbatim>\<open>xs[i]\<close> for a Python integer: an index in \<open>[-len, 0)\<close> counts from the end, and an
  index outside \<open>[-len, len)\<close> raises \<^verbatim>\<open>IndexError\<close>.
\<close>

definition list_getitem :: "'a list \<Rightarrow> int \<Rightarrow> py_error + 'a" where
  "list_getitem xs i =
     (if 0 \<le> i \<and> i < int (length xs) then Inr (xs ! nat i)
      else if - int (length xs) \<le> i \<and> i < 0 then Inr (xs ! nat (int (length xs) + i))
      else Inl IndexError)"

text \<open>\<^verbatim>\<open>a / b\<close>; times and percentages are exact reals here, not floats.\<close>

definition truediv :: "real \<Rightarrow> real \<Rightarrow> py_error + real" where
  "truediv a b = (if b = 0 then Inl ZeroDivisionError else Inr (a / b))"


section \<open>The data of a quiz session\<close>

text \<open>The dictionary built by \<^verbatim>\<open>APIHandler._parse_questions\<close>, one field per key.\<close>

record quiz_question =
  question :: string
  correct_answer :: string
  incorrect_answers :: "string list"
  category :: string
  difficulty :: string

text \<open>
  The dictionary returned by \<^verbatim>\<open>get_current_question\<close>: a copy of the question with the
  keys \<^verbatim>\<open>shuffled_answers\<close> and \<^verbatim>\<open>correct_index\<close> added.
\<close>

record presented_question = quiz_question +
  shuffled_answers :: "string list"
  correct_index :: nat

text \<open>The dictionary appended to \<^verbatim>\<open>user_answers\<close> by \<^verbatim>\<open>submit_answer\<close>.\<close>

record answer_record =
  a_question :: string
  user_answer :: string
  a_correct_answer :: string
  is_correct :: bool
  time_taken :: real

text \<open>
  The attributes of \<^verbatim>\<open>QuizEngine\<close>. The two counters start at 0 and are only ever
  incremented, so they are naturals.
\<close>

record engine =
  questions :: "quiz_question list"
  current_question :: nat
  score :: nat
  start_time :: "real option"
  question_times :: "real list"
  user_answers :: "answer_record list"

text \<open>The dictionary returned by \<^verbatim>\<open>get_final_results\<close>.\<close>

record session_result =
  r_score :: nat
  r_total_questions :: nat
  r_percentage :: real
  r_total_time :: real
  r_average_time_per_question :: real
  r_user_answers :: "answer_record list"


section \<open>The operations of \<^verbatim>\<open>QuizEngine\<close>\<close>

definition engine_init :: engine where
  "engine_init =
     \<lparr>questions = [], current_question = 0, score = 0, start_time = None,
      question_times = [], user_answers = []\<rparr>"

text \<open>\<open>now\<close> is the value \<^verbatim>\<open>time.time()\<close> returns during the call.\<close>

definition load_questions :: "engine \<Rightarrow> quiz_question list \<Rightarrow> real \<Rightarrow> engine" where
  "load_questions e qs now =
     e\<lparr>questions := qs, current_question := 0, score := 0, start_time := Some now,
       question_times := [], user_answers := []\<rparr>"

text \<open>
  The dictionary \<^verbatim>\<open>get_current_question\<close> builds: \<^verbatim>\<open>question.copy()\<close> with the keys
  \<^verbatim>\<open>shuffled_answers\<close> and \<^verbatim>\<open>correct_index\<close> set.
\<close>

definition present :: "quiz_question \<Rightarrow> string list \<Rightarrow> nat \<Rightarrow> presented_question" where
  "present q sh ci =
     \<lparr>question = question q, correct_answer = correct_answer q,
      incorrect_answers = incorrect_answers q,
      category = category q, difficulty = difficulty q,
      shuffled_answers = sh, correct_index = ci\<rparr>"

text \<open>
  \<^verbatim>\<open>get_current_question\<close> assigns no attribute of the engine, so it returns only its
  result and the generator's next state. (That the in-place shuffle does not reach the
  stored question through the shallow copy is the subject of the store-level model below.)
\<close>

definition get_current_question ::
  "engine \<Rightarrow> rng \<Rightarrow> (py_error + presented_question option) \<times> rng" where
  "get_current_question e g =
     (if current_question e \<ge> length (questions e) then (Inr None, g)
      else
        let q = questions e ! current_question e;
            all_answers = incorrect_answers q @ [correct_answer q]
        in case shuffle all_answers g of
          (shuffled, g') \<Rightarrow>
            (case list_index shuffled (correct_answer q) of
               Inl err \<Rightarrow> (Inl err, g')
             | Inr ci \<Rightarrow> (Inr (Some (present q shuffled ci)), g')))"

text \<open>
  \<^verbatim>\<open>submit_answer\<close> returns its result (or the exception), the engine as it is when the
  call ends, and the generator's next state. The score is incremented before the answer
  record is built, so the engine returned with an exception is the one after that step.
\<close>

definition submit_answer ::
  "engine \<Rightarrow> rng \<Rightarrow> int \<Rightarrow> real \<Rightarrow> (py_error + bool) \<times> engine \<times> rng" where
  "submit_answer e g answer_index t =
     (if current_question e \<ge> length (questions e) then (Inr False, e, g)
      else case get_current_question e g of
        (Inl err, g') \<Rightarrow> (Inl err, e, g')
      | (Inr None, g') \<Rightarrow> (Inl TypeError, e, g')
      | (Inr (Some q), g') \<Rightarrow>
          let correct = (answer_index = int (correct_index q));
              e1 = (if correct then e\<lparr>score := score e + 1\<rparr> else e)
          in (case list_getitem (shuffled_answers q) answer_index of
               Inl err \<Rightarrow> (Inl err, e1, g')
             | Inr ua \<Rightarrow>
                 (Inr correct,
                  e1\<lparr>user_answers := user_answers e1 @
                        [\<lparr>a_question = question q, user_answer = ua,
                          a_correct_answer = correct_answer q,
                          is_correct = correct, time_taken = t\<rparr>],
                     question_times := question_times e1 @ [t],
                     current_question := current_question e1 + 1\<rparr>,
                  g')))"

definition get_progress :: "engine \<Rightarrow> nat \<times> nat" where
  "get_progress e = (current_question e, length (questions e))"

text \<open>
  \<^verbatim>\<open>get_final_results\<close>; \<open>now\<close> is \<^verbatim>\<open>time.time()\<close>. A start time that is \<^verbatim>\<open>None\<close> or
  \<open>0\<close> is falsy. The average is computed before the result dictionary is built.
\<close>

definition get_final_results :: "engine \<Rightarrow> real \<Rightarrow> py_error + session_result" where
  "get_final_results e now =
     (let total = (case start_time e of
                     None \<Rightarrow> 0
                   | Some s \<Rightarrow> if s \<noteq> 0 then now - s else 0)
      in case (if question_times e \<noteq> []
               then truediv (sum_list (question_times e)) (real (length (question_times e)))
               else Inr 0) of
           Inl err \<Rightarrow> Inl err
         | Inr avg \<Rightarrow>
             (case (if questions e \<noteq> []
                    then (case truediv (real (score e)) (real (length (questions e))) of
                            Inl err \<Rightarrow> Inl err
                          | Inr d \<Rightarrow> Inr (d * 100))
                    else Inr 0) of
                Inl err \<Rightarrow> Inl err
              | Inr pct \<Rightarrow>
                  Inr \<lparr>r_score = score e, r_total_questions = length (questions e),
                       r_percentage = pct, r_total_time = total,
                       r_average_time_per_question = avg,
                       r_user_answers = user_answers e\<rparr>))"


section \<open>Sessions: sequences of calls\<close>

text \<open>
  A caller drives the engine by a sequence of calls. A call that raises leaves the engine
  as it was when the exception was raised, and the caller may go on calling.
\<close>

datatype call =
    LoadQuestions "quiz_question list" real
  | GetCurrentQuestion
  | SubmitAnswer int real
  | GetProgress
  | GetFinalResults real

fun exec_call :: "call \<Rightarrow> engine \<times> rng \<Rightarrow> engine \<times> rng" where
  "exec_call (LoadQuestions qs now) (e, g) = (load_questions e qs now, g)"
| "exec_call GetCurrentQuestion (e, g) = (e, snd (get_current_question e g))"
| "exec_call (SubmitAnswer i t) (e, g) = snd (submit_answer e g i t)"
| "exec_call GetProgress (e, g) = (e, g)"
| "exec_call (GetFinalResults now) (e, g) = (e, g)"

fun run :: "call list \<Rightarrow> engine \<times> rng \<Rightarrow> engine \<times> rng" where
  "run [] s = s"
| "run (c # cs) s = run cs (exec_call c s)"

text \<open>The calls that stay within one session: every call but a new load.\<close>

fun session_call :: "call \<Rightarrow> bool" where
  "session_call (LoadQuestions qs now) = False"
| "session_call c = True"


text \<open>
  What a load establishes and every call keeps: the score counts the correct records,
  there is one record per answered question, and the position is within the list.
\<close>

definition session_inv :: "engine \<Rightarrow> bool" where
  "session_inv e =
     (score e = length (filter is_correct (user_answers e)) \<and>
      length (user_answers e) = current_question e \<and>
      current_question e \<le> length (questions e))"


section \<open>The objects behind \<^verbatim>\<open>get_current_question\<close>\<close>

text \<open>
  Python dictionaries and lists are mutable objects, and \<^verbatim>\<open>dict.copy()\<close> is shallow: the
  copy made by \<^verbatim>\<open>get_current_question\<close> shares the list of incorrect answers with the
  stored question. The store holds the objects by address: the question lists, the question
  dictionaries (whose \<^verbatim>\<open>incorrect_answers\<close> and \<^verbatim>\<open>shuffled_answers\<close> are references) and
  the lists of strings. A key a dictionary does not have is \<open>None\<close>.
\<close>

type_synonym addr = nat

record question_obj =
  o_question :: string
  o_correct_answer :: string
  o_incorrect_answers :: addr
  o_category :: string
  o_difficulty :: string
  o_shuffled_answers :: "addr option"
  o_correct_index :: "nat option"

record store =
  qlists :: "addr list list"
  dicts :: "question_obj list"
  strlists :: "string list list"

text \<open>The engine object: \<^verbatim>\<open>self.questions\<close> is a reference to a question list.\<close>

record engine_obj =
  h_questions :: addr
  h_current_question :: nat
  h_score :: nat
  h_start_time :: "real option"
  h_question_times :: "real list"
  h_user_answers :: "answer_record list"

text \<open>\<^verbatim>\<open>d.copy()\<close>: a new dictionary with the same values, references included.\<close>

definition dict_copy :: "store \<Rightarrow> addr \<Rightarrow> addr \<times> store" where
  "dict_copy s a = (length (dicts s), s\<lparr>dicts := dicts s @ [dicts s ! a]\<rparr>)"

text \<open>\<^verbatim>\<open>xs + [x]\<close>: a new list object.\<close>

definition list_concat :: "store \<Rightarrow> addr \<Rightarrow> string \<Rightarrow> addr \<times> store" where
  "list_concat s a x =
     (length (strlists s), s\<lparr>strlists := strlists s @ [strlists s ! a @ [x]]\<rparr>)"

text \<open>\<^verbatim>\<open>random.shuffle(x)\<close> writes to the list object \<open>x\<close> refers to, and to no other.\<close>

definition shuffle_in_place :: "store \<Rightarrow> addr \<Rightarrow> rng \<Rightarrow> store \<times> rng" where
  "shuffle_in_place s a g =
     (case shuffle (strlists s ! a) g of
        (xs, g') \<Rightarrow> (s\<lparr>strlists := (strlists s)[a := xs]\<rparr>, g'))"

text \<open>\<^verbatim>\<open>d['shuffled_answers'] = v\<close> and \<^verbatim>\<open>d['correct_index'] = v\<close> on the dictionary at \<open>a\<close>.\<close>

definition set_shuffled_answers :: "store \<Rightarrow> addr \<Rightarrow> addr \<Rightarrow> store" where
  "set_shuffled_answers s a v =
     s\<lparr>dicts := (dicts s)[a := (dicts s ! a)\<lparr>o_shuffled_answers := Some v\<rparr>]\<rparr>"

definition set_correct_index :: "store \<Rightarrow> addr \<Rightarrow> nat \<Rightarrow> store" where
  "set_correct_index s a v =
     s\<lparr>dicts := (dicts s)[a := (dicts s ! a)\<lparr>o_correct_index := Some v\<rparr>]\<rparr>"

text \<open>
  \<^verbatim>\<open>get_current_question\<close>, statement by statement, on the store. It returns the address
  of the dictionary it built.
\<close>

definition get_current_question_h ::
  "engine_obj \<Rightarrow> store \<Rightarrow> rng \<Rightarrow> (py_error + addr option) \<times> store \<times> rng" where
  "get_current_question_h e s g =
     (if h_current_question e \<ge> length (qlists s ! h_questions e) then (Inr None, s, g)
      else
        (case dict_copy s (qlists s ! h_questions e ! h_current_question e) of
           (qa, s1) \<Rightarrow>
             (case list_concat s1 (o_incorrect_answers (dicts s1 ! qa))
                                 (o_correct_answer (dicts s1 ! qa)) of
                (la, s2) \<Rightarrow>
                  (case shuffle_in_place s2 la g of
                     (s3, g') \<Rightarrow>
                       (let s4 = set_shuffled_answers s3 qa la
                        in (case list_index (strlists s4 ! la)
                                            (o_correct_answer (dicts s4 ! qa)) of
                              Inl err \<Rightarrow> (Inl err, s4, g')
                            | Inr ci \<Rightarrow>
                                (Inr (Some qa), set_correct_index s4 qa ci, g')))))))"

text \<open>
  Reading the values out of the store: the question a stored dictionary stands for, the
  engine state an engine object stands for, and the presented question a returned
  dictionary stands for.
\<close>

definition question_of :: "store \<Rightarrow> addr \<Rightarrow> quiz_question" where
  "question_of s a =
     \<lparr>question = o_question (dicts s ! a), correct_answer = o_correct_answer (dicts s ! a),
      incorrect_answers = strlists s ! o_incorrect_answers (dicts s ! a),
      category = o_category (dicts s ! a), difficulty = o_difficulty (dicts s ! a)\<rparr>"

definition engine_of :: "engine_obj \<Rightarrow> store \<Rightarrow> engine" where
  "engine_of e s =
     \<lparr>questions = map (question_of s) (qlists s ! h_questions e),
      current_question = h_current_question e, score = h_score e,
      start_time = h_start_time e, question_times = h_question_times e,
      user_answers = h_user_answers e\<rparr>"

definition presented_of :: "store \<Rightarrow> addr \<Rightarrow> presented_question option" where
  "presented_of s a =
     (case (o_shuffled_answers (dicts s ! a), o_correct_index (dicts s ! a)) of
        (Some la, Some ci) \<Rightarrow> Some (present (question_of s a) (strlists s ! la) ci)
      | _ \<Rightarrow> None)"

text \<open>The value a result of \<^verbatim>\<open>get_current_question\<close> on the store stands for.\<close>

fun result_of :: "store \<Rightarrow> py_error + addr option \<Rightarrow> py_error + presented_question option" where
  "result_of s (Inl err) = Inl err"
| "result_of s (Inr None) = Inr None"
| "result_of s (Inr (Some a)) = Inr (presented_of s a)"

text \<open>
  A store is well formed for an engine object when every reference the engine can follow
  leads to an object: its question list, the dictionaries in it, and their answer lists.
\<close>

definition wf_store :: "engine_obj \<Rightarrow> store \<Rightarrow> bool" where
  "wf_store e s =
     (h_questions e < length (qlists s) \<and>
      list_all
        (\<lambda>a. a < length (dicts s) \<and> o_incorrect_answers (dicts s ! a) < length (strlists s))
        (qlists s ! h_questions e))"


section \<open>Example data\<close>

text \<open>
  A question as the question bank delivers it, an engine that has loaded it, and a
  generator whose first draws are 3, 2, 1, 0, 0, ...: with four answers the shuffle then
  swaps every position with itself and leaves the list in its order.
\<close>

definition example_question :: quiz_question where
  "example_question =
     \<lparr>question = ''Capital of France?'', correct_answer = ''Paris'',
      incorrect_answers = [''Rome'', ''Oslo'', ''Bern''],
      category = ''Geography'', difficulty = ''easy''\<rparr>"

definition example_engine :: engine where
  "example_engine = load_questions engine_init [example_question] 100"

definition example_rng :: rng where
  "example_rng k = 3 - k"

text \<open>A generator that always draws 0: the shuffle swaps each position with the first.\<close>

definition zero_rng :: rng where
  "zero_rng k = 0"

text \<open>The same engine as objects: one question list, one dictionary, one answer list.\<close>

definition example_store :: store where
  "example_store =
     \<lparr>qlists = [[0]],
      dicts = [\<lparr>o_question = ''Capital of France?'', o_correct_answer = ''Paris'',
                o_incorrect_answers = 0, o_category = ''Geography'', o_difficulty = ''easy'',
                o_shuffled_answers = None, o_correct_index = None\<rparr>],
      strlists = [[''Rome'', ''Oslo'', ''Bern'']]\<rparr>"

definition example_engine_obj :: engine_obj where
  "example_engine_obj =
     \<lparr>h_questions = 0, h_current_question = 0, h_score = 0, h_start_time = Some 100,
      h_question_times = [], h_user_answers = []\<rparr>"


section \<open>The shuffle and the index of the correct answer\<close>

lemma randbelow_less: "0 < n \<Longrightarrow> fst (randbelow g n) < n"
  by (simp add: randbelow_def)

lemma swap_items_mset:
  "i < length xs \<Longrightarrow> j < length xs \<Longrightarrow> mset (swap_items xs i j) = mset xs"
  unfolding swap_items_def by (simp add: mset_swap)

lemma swap_items_length: "length (swap_items xs i j) = length xs"
  by (simp add: swap_items_def)

lemma shuffle_loop_mset:
  "k < length xs \<Longrightarrow> mset (fst (shuffle_loop k xs g)) = mset xs"
proof (induction k arbitrary: xs g)
  case 0
  show ?case by simp
next
  case (Suc k)
  obtain j g' where r: "randbelow g (Suc k + 1) = (j, g')" by (cases "randbelow g (Suc k + 1)")
  have "j < Suc k + 1" using randbelow_less [of "Suc k + 1" g] r by simp
  with Suc.prems have j: "j < length xs" by simp
  have "mset (fst (shuffle_loop k (swap_items xs (Suc k) j) g')) = mset (swap_items xs (Suc k) j)"
    using Suc.prems by (intro Suc.IH) (simp add: swap_items_length)
  also have "\<dots> = mset xs" using Suc.prems j by (simp add: swap_items_mset)
  finally show ?case using r by simp
qed

lemma shuffle_mset: "mset (fst (shuffle xs g)) = mset xs"
proof (cases xs)
  case Nil
  then show ?thesis by (simp add: shuffle_def)
next
  case (Cons a as)
  then show ?thesis unfolding shuffle_def by (intro shuffle_loop_mset) simp
qed

lemma list_index_found:
  "x \<in> set xs \<Longrightarrow> \<exists>n. list_index xs x = Inr n \<and> n < length xs \<and> xs ! n = x"
  by (induction xs) auto

section \<open>Presenting the current question\<close>

lemma get_current_question_in_progress:
  assumes "current_question e < length (questions e)"
    and "q = questions e ! current_question e"
  shows "\<exists>sh ci g'. shuffle (incorrect_answers q @ [correct_answer q]) g = (sh, g')
           \<and> list_index sh (correct_answer q) = Inr ci
           \<and> get_current_question e g = (Inr (Some (present q sh ci)), g')
           \<and> mset sh = mset (incorrect_answers q @ [correct_answer q])
           \<and> ci < length sh \<and> sh ! ci = correct_answer q"
proof -
  obtain sh g' where sh: "shuffle (incorrect_answers q @ [correct_answer q]) g = (sh, g')"
    by (cases "shuffle (incorrect_answers q @ [correct_answer q]) g")
  have m: "mset sh = mset (incorrect_answers q @ [correct_answer q])"
    using shuffle_mset [of "incorrect_answers q @ [correct_answer q]" g] sh by simp
  have "set sh = set (incorrect_answers q @ [correct_answer q])"
    using m by (rule mset_eq_setD)
  then have "correct_answer q \<in> set sh" by simp
  from list_index_found [OF this]
  obtain ci where ci: "list_index sh (correct_answer q) = Inr ci" "ci < length sh"
      "sh ! ci = correct_answer q"
    by (elim exE conjE)
  have "get_current_question e g = (Inr (Some (present q sh ci)), g')"
    unfolding get_current_question_def present_def Let_def assms(2) [symmetric]
    using assms(1) sh ci(1) by simp
  with sh ci m show ?thesis by (intro exI conjI)
qed

lemma get_current_question_presents:
  assumes "current_question e < length (questions e)"
  shows "\<exists>p g'. get_current_question e g = (Inr (Some p), g')
           \<and> quiz_question.truncate p = questions e ! current_question e
           \<and> mset (shuffled_answers p) =
               mset (incorrect_answers (questions e ! current_question e)) +
               {#correct_answer (questions e ! current_question e)#}
           \<and> correct_index p < length (shuffled_answers p)
           \<and> shuffled_answers p ! correct_index p =
               correct_answer (questions e ! current_question e)"
proof -
  from get_current_question_in_progress [OF assms refl, of g]
  obtain sh ci g' where
    g: "get_current_question e g =
          (Inr (Some (present (questions e ! current_question e) sh ci)), g')"
    and m: "mset sh = mset (incorrect_answers (questions e ! current_question e) @
                            [correct_answer (questions e ! current_question e)])"
    and c: "ci < length sh" "sh ! ci = correct_answer (questions e ! current_question e)"
    by (elim exE conjE)
  show ?thesis
    apply (rule exI [of _ "present (questions e ! current_question e) sh ci"])
    apply (rule exI [of _ g'])
    using g m c by (simp add: present_def quiz_question.truncate_def)
qed

subsection \<open>The example session\<close>

lemma example_engine_fields:
  "questions example_engine = [example_question]"
  "current_question example_engine = 0"
  "score example_engine = 0"
  "question_times example_engine = []"
  "user_answers example_engine = []"
  by (simp_all add: example_engine_def load_questions_def)

lemma example_shuffle:
  "shuffle [''Rome'', ''Oslo'', ''Bern'', ''Paris''] example_rng =
     ([''Rome'', ''Oslo'', ''Bern'', ''Paris''], \<lambda>k. example_rng (Suc (Suc (Suc k))))"
  by (simp add: shuffle_def randbelow_def swap_items_def example_rng_def)

lemma example_get_current_question:
  "get_current_question example_engine example_rng =
     (Inr (Some (present example_question [''Rome'', ''Oslo'', ''Bern'', ''Paris''] 3)),
      \<lambda>k. example_rng (Suc (Suc (Suc k))))"
  by (simp add: get_current_question_def example_engine_def load_questions_def
      example_question_def example_shuffle present_def)

subsection \<open>The shuffled answers\<close>

text \<open>
  C6. For a question whose correct answer is not among its incorrect answers, the presented
  question \<^verbatim>\<open>get_current_question\<close> returns has \<^verbatim>\<open>shuffled_answers\<close> a permutation of the
  incorrect answers plus the correct answer, so the correct answer occurs exactly once, and
  \<^verbatim>\<open>shuffled_answers[correct_index]\<close> is the correct answer.
\<close>

theorem shuffled_answers_permutation:
  assumes "current_question e < length (questions e)"
    and "q = questions e ! current_question e"
    and "correct_answer q \<notin> set (incorrect_answers q)"
  shows "\<exists>p g'. get_current_question e g = (Inr (Some p), g')
     \<and> mset (shuffled_answers p) = mset (incorrect_answers q) + {#correct_answer q#}
     \<and> count_list (shuffled_answers p) (correct_answer q) = 1
     \<and> correct_index p < length (shuffled_answers p)
     \<and> shuffled_answers p ! correct_index p = correct_answer q"
proof -
  from get_current_question_presents [OF assms(1), of g]
  obtain p g' where g: "get_current_question e g = (Inr (Some p), g')"
    and m: "mset (shuffled_answers p) = mset (incorrect_answers q) + {#correct_answer q#}"
    and c: "correct_index p < length (shuffled_answers p)"
      "shuffled_answers p ! correct_index p = correct_answer q"
    unfolding assms(2) by (elim exE conjE)
  have "count_list (shuffled_answers p) (correct_answer q)
          = count (mset (shuffled_answers p)) (correct_answer q)"
    by (simp add: count_mset)
  also have "\<dots> = 1"
    using assms(3) by (simp add: m count_mset count_list_0_iff)
  finally show ?thesis using g m c by blast
qed

theorem shuffled_answers_permutation_witness:
  "current_question example_engine < length (questions example_engine)
   \<and> correct_answer example_question \<notin> set (incorrect_answers example_question)
   \<and> (\<exists>p g'. get_current_question example_engine example_rng = (Inr (Some p), g')
     \<and> shuffled_answers p = [''Rome'', ''Oslo'', ''Bern'', ''Paris'']
     \<and> mset (shuffled_answers p) =
         mset (incorrect_answers example_question) + {#correct_answer example_question#}
     \<and> count_list (shuffled_answers p) (correct_answer example_question) = 1
     \<and> correct_index p < length (shuffled_answers p)
     \<and> shuffled_answers p ! correct_index p = correct_answer example_question)"
proof -
  have h1: "current_question example_engine < length (questions example_engine)"
    by (simp add: example_engine_fields)
  have h2: "example_question = questions example_engine ! current_question example_engine"
    by (simp add: example_engine_fields)
  have h3: "correct_answer example_question \<notin> set (incorrect_answers example_question)"
    by (simp add: example_question_def)
  from shuffled_answers_permutation [OF h1 h2 h3, of example_rng]
  obtain p g' where g: "get_current_question example_engine example_rng = (Inr (Some p), g')"
    and f: "mset (shuffled_answers p) =
         mset (incorrect_answers example_question) + {#correct_answer example_question#}"
      "count_list (shuffled_answers p) (correct_answer example_question) = 1"
      "correct_index p < length (shuffled_answers p)"
      "shuffled_answers p ! correct_index p = correct_answer example_question"
    by (elim exE conjE)
  from g have "shuffled_answers p = [''Rome'', ''Oslo'', ''Bern'', ''Paris'']"
    by (auto simp add: example_get_current_question present_def)
  with g f have "\<exists>p g'. get_current_question example_engine example_rng = (Inr (Some p), g')
     \<and> shuffled_answers p = [''Rome'', ''Oslo'', ''Bern'', ''Paris'']
     \<and> mset (shuffled_answers p) =
         mset (incorrect_answers example_question) + {#correct_answer example_question#}
     \<and> count_list (shuffled_answers p) (correct_answer example_question) = 1
     \<and> correct_index p < length (shuffled_answers p)
     \<and> shuffled_answers p ! correct_index p = correct_answer example_question"
    by (intro exI conjI)
  with h1 h3 show ?thesis by (intro conjI)
qed

section \<open>Loading\<close>

lemma session_inv_load: "session_inv (load_questions e qs now)"
  by (simp add: session_inv_def load_questions_def)

lemma questions_load: "questions (load_questions e qs now) = qs"
  by (simp add: load_questions_def)

text \<open>
  C9. For every list of questions, the empty one included, \<^verbatim>\<open>load_questions\<close> resets the
  whole session: the position and the score are 0, the timing log and the answer history
  are empty, the question list is the given list and the start time is the time of the
  call. After loading the empty list \<^verbatim>\<open>get_current_question\<close> returns \<^verbatim>\<open>None\<close> at once.
\<close>

theorem load_questions_resets:
  "load_questions e qs now =
     \<lparr>questions = qs, current_question = 0, score = 0, start_time = Some now,
      question_times = [], user_answers = []\<rparr>
   \<and> get_current_question (load_questions e [] now) g = (Inr None, g)"
  by (simp add: load_questions_def get_current_question_def)

section \<open>Submitting an answer\<close>

lemma list_getitem_nonneg:
  "0 \<le> i \<Longrightarrow> i < int (length xs) \<Longrightarrow> list_getitem xs i = Inr (xs ! nat i)"
  by (simp add: list_getitem_def)

lemma list_getitem_negative:
  "- int (length xs) \<le> i \<Longrightarrow> i < 0 \<Longrightarrow>
     list_getitem xs i = Inr (xs ! nat (int (length xs) + i))"
  by (simp add: list_getitem_def)

lemma list_getitem_outside:
  "i < - int (length xs) \<or> int (length xs) \<le> i \<Longrightarrow> list_getitem xs i = Inl IndexError"
  by (auto simp add: list_getitem_def)

lemma list_getitem_index_ok:
  "n < length xs \<Longrightarrow> list_getitem xs (int n) = Inr (xs ! n)"
  by (simp add: list_getitem_def)

lemma list_getitem_error: "list_getitem xs i = Inl err \<Longrightarrow> err = IndexError"
  by (auto simp add: list_getitem_def split: if_splits)

lemma submit_answer_in_progress:
  assumes "current_question e < length (questions e)"
    and "get_current_question e g = (Inr (Some p), g')"
  shows "submit_answer e g i t =
     (case list_getitem (shuffled_answers p) i of
        Inl err \<Rightarrow> (Inl err, if i = int (correct_index p) then e\<lparr>score := score e + 1\<rparr> else e, g')
      | Inr ua \<Rightarrow>
          (Inr (i = int (correct_index p)),
           e\<lparr>score := (if i = int (correct_index p) then score e + 1 else score e),
             user_answers := user_answers e @
               [\<lparr>a_question = question p, user_answer = ua,
                 a_correct_answer = correct_answer p,
                 is_correct = (i = int (correct_index p)), time_taken = t\<rparr>],
             question_times := question_times e @ [t],
             current_question := current_question e + 1\<rparr>, g'))"
  using assms by (simp add: submit_answer_def Let_def split: sum.split)

lemma example_submit_correct:
  "submit_answer example_engine example_rng 3 1 =
     (Inr True,
      example_engine\<lparr>score := 1,
        user_answers := [\<lparr>a_question = ''Capital of France?'', user_answer = ''Paris'',
                          a_correct_answer = ''Paris'', is_correct = True, time_taken = 1\<rparr>],
        question_times := [1], current_question := 1\<rparr>,
      \<lambda>k. example_rng (Suc (Suc (Suc k))))"
  by (simp add: submit_answer_def example_get_current_question present_def list_getitem_def
      example_engine_fields example_question_def)

subsection \<open>After the last question\<close>

text \<open>
  C3. When the position has reached the number of questions (all answered, or none
  loaded), \<^verbatim>\<open>submit_answer\<close> returns \<^verbatim>\<open>False\<close> and changes nothing: score, position,
  answer history and timing log are as before.
\<close>

theorem submit_answer_after_completion:
  assumes "length (questions e) \<le> current_question e"
  shows "submit_answer e g i t = (Inr False, e, g)"
  using assms by (simp add: submit_answer_def)

theorem submit_answer_after_completion_witness:
  "length (questions engine_init) \<le> current_question engine_init
   \<and> submit_answer engine_init example_rng 0 5 = (Inr False, engine_init, example_rng)
   \<and> length (questions (example_engine\<lparr>current_question := 1\<rparr>))
        \<le> current_question (example_engine\<lparr>current_question := 1\<rparr>)
   \<and> submit_answer (example_engine\<lparr>current_question := 1\<rparr>) example_rng 3 5 =
        (Inr False, example_engine\<lparr>current_question := 1\<rparr>, example_rng)"
proof -
  have h1: "length (questions engine_init) \<le> current_question engine_init"
    by (simp add: engine_init_def)
  have h2: "length (questions (example_engine\<lparr>current_question := 1\<rparr>))
        \<le> current_question (example_engine\<lparr>current_question := 1\<rparr>)"
    by (simp add: example_engine_fields)
  from submit_answer_after_completion [OF h1, of example_rng 0 5]
    submit_answer_after_completion [OF h2, of example_rng 3 5] h1 h2
  show ?thesis by simp
qed

subsection \<open>A valid index\<close>

text \<open>
  C2. In a session in progress (position below the number of questions), for every answer
  index in \<open>[0, len(shuffled_answers))\<close>, \<^verbatim>\<open>submit_answer\<close> returns whether the index
  equals the \<^verbatim>\<open>correct_index\<close> of the presented question it derived for grading. It adds
  one to the score exactly when that is true, appends one answer record and one time, and
  moves the position on by one.
\<close>

theorem submit_answer_valid_index:
  assumes "current_question e < length (questions e)"
    and "0 \<le> i"
    and "i < int (length (incorrect_answers (questions e ! current_question e))) + 1"
  shows "\<exists>p g'. get_current_question e g = (Inr (Some p), g')
     \<and> length (shuffled_answers p) =
         length (incorrect_answers (questions e ! current_question e)) + 1
     \<and> submit_answer e g i t =
         (Inr (i = int (correct_index p)),
          e\<lparr>score := (if i = int (correct_index p) then score e + 1 else score e),
            user_answers := user_answers e @
              [\<lparr>a_question = question p, user_answer = shuffled_answers p ! nat i,
                a_correct_answer = correct_answer p,
                is_correct = (i = int (correct_index p)), time_taken = t\<rparr>],
            question_times := question_times e @ [t],
            current_question := current_question e + 1\<rparr>,
          g')"
proof -
  from get_current_question_presents [OF assms(1), of g]
  obtain p g' where g: "get_current_question e g = (Inr (Some p), g')"
    and m: "mset (shuffled_answers p) =
               mset (incorrect_answers (questions e ! current_question e)) +
               {#correct_answer (questions e ! current_question e)#}"
    by (elim exE conjE)
  from m have len: "length (shuffled_answers p) =
         length (incorrect_answers (questions e ! current_question e)) + 1"
    by (metis size_mset size_union size_single)
  with assms(2,3) have "list_getitem (shuffled_answers p) i = Inr (shuffled_answers p ! nat i)"
    by (simp add: list_getitem_nonneg)
  with submit_answer_in_progress [OF assms(1) g, of i t] g len
  show ?thesis by simp
qed

theorem submit_answer_valid_index_witness:
  "current_question example_engine < length (questions example_engine)
   \<and> (0::int) \<le> 3
   \<and> 3 < int (length (incorrect_answers
              (questions example_engine ! current_question example_engine))) + 1
   \<and> submit_answer example_engine example_rng 3 1 =
       (Inr True,
        example_engine\<lparr>score := 1,
          user_answers := [\<lparr>a_question = ''Capital of France?'', user_answer = ''Paris'',
                            a_correct_answer = ''Paris'', is_correct = True, time_taken = 1\<rparr>],
          question_times := [1], current_question := 1\<rparr>,
        \<lambda>k. example_rng (Suc (Suc (Suc k))))"
proof -
  have h1: "current_question example_engine < length (questions example_engine)"
    by (simp add: example_engine_fields)
  have h2: "(0::int) \<le> 3" by simp
  have h3: "3 < int (length (incorrect_answers
              (questions example_engine ! current_question example_engine))) + 1"
    by (simp add: example_engine_fields example_question_def)
  from submit_answer_valid_index [OF h1 h2 h3, of example_rng 1] h1 h2 h3
  show ?thesis
    by (auto simp add: example_get_current_question present_def example_engine_fields
        example_question_def)
qed

subsection \<open>Any other index\<close>

text \<open>
  C1, as the code has it. In a session in progress whose presented question has \<open>n\<close>
  answers, an answer index in \<open>[-n, 0)\<close>, the no-answer value \<open>-1\<close> among them, does not
  raise: the submission is graded incorrect, the score is unchanged, one answer record
  marked incorrect and the time are appended, the position moves on by one and the result
  is \<^verbatim>\<open>False\<close>. An index below \<open>-n\<close> or from \<open>n\<close> upwards raises \<^verbatim>\<open>IndexError\<close> and
  leaves the engine as it was.
\<close>

theorem submit_answer_other_index:
  assumes "current_question e < length (questions e)"
    and "n = int (length (incorrect_answers (questions e ! current_question e))) + 1"
  shows "\<exists>p g'. get_current_question e g = (Inr (Some p), g')
     \<and> int (length (shuffled_answers p)) = n
     \<and> (- n \<le> i \<and> i < 0 \<longrightarrow>
          (\<exists>r. submit_answer e g i t =
                 (Inr False,
                  e\<lparr>user_answers := user_answers e @ [r],
                    question_times := question_times e @ [t],
                    current_question := current_question e + 1\<rparr>,
                  g')
               \<and> \<not> is_correct r \<and> time_taken r = t
               \<and> a_question r = question p \<and> a_correct_answer r = correct_answer p))
     \<and> (i < - n \<or> n \<le> i \<longrightarrow> submit_answer e g i t = (Inl IndexError, e, g'))"
proof -
  from get_current_question_presents [OF assms(1), of g]
  obtain p g' where g: "get_current_question e g = (Inr (Some p), g')"
    and m: "mset (shuffled_answers p) =
               mset (incorrect_answers (questions e ! current_question e)) +
               {#correct_answer (questions e ! current_question e)#}"
    and c: "correct_index p < length (shuffled_answers p)"
    by (elim exE conjE)
  from m have "length (shuffled_answers p) =
         length (incorrect_answers (questions e ! current_question e)) + 1"
    by (metis size_mset size_union size_single)
  with assms(2) have len: "int (length (shuffled_answers p)) = n" by simp
  have neg: "\<exists>r. submit_answer e g i t =
                 (Inr False,
                  e\<lparr>user_answers := user_answers e @ [r],
                    question_times := question_times e @ [t],
                    current_question := current_question e + 1\<rparr>,
                  g')
               \<and> \<not> is_correct r \<and> time_taken r = t
               \<and> a_question r = question p \<and> a_correct_answer r = correct_answer p"
    if i: "- n \<le> i" "i < 0"
  proof -
    from i len have
      "list_getitem (shuffled_answers p) i =
         Inr (shuffled_answers p ! nat (int (length (shuffled_answers p)) + i))"
      by (simp add: list_getitem_negative)
    moreover from i have "i \<noteq> int (correct_index p)" by simp
    ultimately show ?thesis
      using submit_answer_in_progress [OF assms(1) g, of i t]
      by (intro exI [of _ "\<lparr>a_question = question p,
            user_answer = shuffled_answers p ! nat (int (length (shuffled_answers p)) + i),
            a_correct_answer = correct_answer p, is_correct = False, time_taken = t\<rparr>"])
        simp
  qed
  have out: "submit_answer e g i t = (Inl IndexError, e, g')" if i: "i < - n \<or> n \<le> i"
  proof -
    from i len have "list_getitem (shuffled_answers p) i = Inl IndexError"
      by (simp add: list_getitem_outside)
    moreover from i c len have "i \<noteq> int (correct_index p)" by auto
    ultimately show ?thesis
      using submit_answer_in_progress [OF assms(1) g, of i t] by simp
  qed
  from g len neg out show ?thesis by blast
qed

theorem submit_answer_other_index_witness:
  "current_question example_engine < length (questions example_engine)
   \<and> fst (submit_answer example_engine example_rng (- 1) 2) = Inr False
   \<and> score (fst (snd (submit_answer example_engine example_rng (- 1) 2))) = 0
   \<and> current_question (fst (snd (submit_answer example_engine example_rng (- 1) 2))) = 1
   \<and> question_times (fst (snd (submit_answer example_engine example_rng (- 1) 2))) = [2]
   \<and> map is_correct (user_answers (fst (snd (submit_answer example_engine example_rng (- 1) 2))))
       = [False]
   \<and> fst (submit_answer example_engine example_rng 4 2) = Inl IndexError
   \<and> fst (snd (submit_answer example_engine example_rng 4 2)) = example_engine"
proof -
  have h1: "current_question example_engine < length (questions example_engine)"
    by (simp add: example_engine_fields)
  have h2: "(4::int) = int (length (incorrect_answers
              (questions example_engine ! current_question example_engine))) + 1"
    by (simp add: example_engine_fields example_question_def)
  from submit_answer_other_index [OF h1 h2, of example_rng "- 1" 2]
  have a: "fst (submit_answer example_engine example_rng (- 1) 2) = Inr False
   \<and> score (fst (snd (submit_answer example_engine example_rng (- 1) 2))) = 0
   \<and> current_question (fst (snd (submit_answer example_engine example_rng (- 1) 2))) = 1
   \<and> question_times (fst (snd (submit_answer example_engine example_rng (- 1) 2))) = [2]
   \<and> map is_correct (user_answers (fst (snd (submit_answer example_engine example_rng (- 1) 2))))
       = [False]"
    by (auto simp add: example_engine_fields)
  from submit_answer_other_index [OF h1 h2, of example_rng 4 2]
  have b: "fst (submit_answer example_engine example_rng 4 2) = Inl IndexError
   \<and> fst (snd (submit_answer example_engine example_rng 4 2)) = example_engine"
    by auto
  from h1 a b show ?thesis by simp
qed

text \<open>
  C1 as stated fails on the example: with four answers, index 4 raises \<^verbatim>\<open>IndexError\<close>,
  and for index \<open>-1\<close> the record holds the last shuffled answer as the user's answer
  (here the correct one, in a record marked incorrect), not a not-found indicator.
\<close>

theorem submit_answer_index_counterexample:
  "fst (submit_answer example_engine example_rng 4 1) = Inl IndexError
   \<and> fst (submit_answer example_engine example_rng (- 1) 1) = Inr False
   \<and> map user_answer (user_answers (fst (snd (submit_answer example_engine example_rng (- 1) 1))))
       = [''Paris'']"
  by (simp add: submit_answer_def example_get_current_question present_def list_getitem_def
      example_engine_fields)

section \<open>Sessions\<close>

text \<open>The engine after a submission in progress: untouched with an exception, advanced otherwise.\<close>

lemma submit_answer_engine:
  assumes "current_question e < length (questions e)"
  shows "(fst (submit_answer e g i t) = Inl IndexError \<and> fst (snd (submit_answer e g i t)) = e)
       \<or> (\<exists>r c. fst (submit_answer e g i t) = Inr c \<and> is_correct r = c \<and>
            fst (snd (submit_answer e g i t)) =
              e\<lparr>score := (if c then score e + 1 else score e),
                user_answers := user_answers e @ [r],
                question_times := question_times e @ [t],
                current_question := current_question e + 1\<rparr>)"
proof -
  from get_current_question_presents [OF assms, of g]
  obtain p g' where g: "get_current_question e g = (Inr (Some p), g')"
    and c: "correct_index p < length (shuffled_answers p)"
    by (elim exE conjE)
  note s = submit_answer_in_progress [OF assms g, of i t]
  show ?thesis
  proof (cases "list_getitem (shuffled_answers p) i")
    case (Inl err)
    then have "err = IndexError" by (rule list_getitem_error)
    moreover have "i \<noteq> int (correct_index p)"
      using Inl list_getitem_index_ok [OF c] by auto
    ultimately show ?thesis using s Inl by simp
  next
    case (Inr ua)
    show ?thesis
      apply (rule disjI2)
      apply (rule exI [of _ "\<lparr>a_question = question p, user_answer = ua,
                 a_correct_answer = correct_answer p,
                 is_correct = (i = int (correct_index p)), time_taken = t\<rparr>"])
      apply (rule exI [of _ "i = int (correct_index p)"])
      using s Inr by simp
  qed
qed

lemma submit_answer_keeps_questions:
  "questions (fst (snd (submit_answer e g i t))) = questions e"
proof (cases "current_question e < length (questions e)")
  case True
  from submit_answer_engine [OF True, of g i t] show ?thesis by auto
next
  case False
  then show ?thesis by (simp add: submit_answer_def)
qed

lemma submit_answer_position:
  "current_question e \<le> current_question (fst (snd (submit_answer e g i t)))"
proof (cases "current_question e < length (questions e)")
  case True
  from submit_answer_engine [OF True, of g i t] show ?thesis by auto
next
  case False
  then show ?thesis by (simp add: submit_answer_def)
qed

lemma session_inv_submit:
  assumes "session_inv e"
  shows "session_inv (fst (snd (submit_answer e g i t)))"
proof (cases "current_question e < length (questions e)")
  case True
  from submit_answer_engine [OF True, of g i t] assms True show ?thesis
    by (auto simp add: session_inv_def)
next
  case False
  with assms show ?thesis by (simp add: submit_answer_def)
qed

lemma session_inv_exec: "session_inv (fst s) \<Longrightarrow> session_inv (fst (exec_call c s))"
  by (cases s; cases c) (simp_all add: session_inv_load session_inv_submit)

lemma session_inv_run: "session_inv (fst s) \<Longrightarrow> session_inv (fst (run cs s))"
  by (induction cs arbitrary: s) (simp_all add: session_inv_exec)

text \<open>
  C4. After a load followed by any sequence of calls (further loads included), the score is
  at most the number of questions and equals the number of answer records whose
  \<^verbatim>\<open>is_correct\<close> is true.
\<close>

theorem score_counts_correct_answers:
  "score (fst (run cs (load_questions e qs now, g)))
     \<le> length (questions (fst (run cs (load_questions e qs now, g))))
   \<and> score (fst (run cs (load_questions e qs now, g)))
     = length (filter is_correct (user_answers (fst (run cs (load_questions e qs now, g)))))"
proof -
  have "session_inv (fst (run cs (load_questions e qs now, g)))"
    by (rule session_inv_run) (simp add: session_inv_load)
  then show ?thesis
    using length_filter_le [of is_correct "user_answers (fst (run cs (load_questions e qs now, g)))"]
    by (simp add: session_inv_def)
qed

text \<open>
  C5. In every state reached by calls after a load, \<^verbatim>\<open>get_current_question\<close> returns
  \<^verbatim>\<open>None\<close> exactly when the position equals the number of loaded questions; otherwise it
  returns the presented question of the question at the position.
\<close>

theorem get_current_question_none_iff:
  assumes "e' = fst (run cs (load_questions e qs now, g))"
  shows "(fst (get_current_question e' g1) = Inr None)
           = (current_question e' = length (questions e'))
     \<and> (current_question e' \<noteq> length (questions e') \<longrightarrow>
          (\<exists>sh ci. fst (get_current_question e' g1) =
                     Inr (Some (present (questions e' ! current_question e') sh ci))
             \<and> mset sh = mset (incorrect_answers (questions e' ! current_question e') @
                               [correct_answer (questions e' ! current_question e')])
             \<and> ci < length sh
             \<and> sh ! ci = correct_answer (questions e' ! current_question e')))"
proof -
  have "session_inv e'"
    unfolding assms by (rule session_inv_run) (simp add: session_inv_load)
  then have le: "current_question e' \<le> length (questions e')"
    by (simp add: session_inv_def)
  show ?thesis
  proof (cases "current_question e' = length (questions e')")
    case True
    then show ?thesis by (simp add: get_current_question_def)
  next
    case False
    with le have lt: "current_question e' < length (questions e')" by simp
    from get_current_question_in_progress [OF lt refl, of g1]
    obtain sh ci g' where
      "get_current_question e' g1 =
         (Inr (Some (present (questions e' ! current_question e') sh ci)), g')"
      "mset sh = mset (incorrect_answers (questions e' ! current_question e') @
                               [correct_answer (questions e' ! current_question e')])"
      "ci < length sh" "sh ! ci = correct_answer (questions e' ! current_question e')"
      by (elim exE conjE)
    with False show ?thesis by auto
  qed
qed

theorem get_current_question_none_iff_witness:
  "fst (get_current_question (fst (run [] (example_engine, example_rng))) example_rng)
     = Inr (Some (present example_question [''Rome'', ''Oslo'', ''Bern'', ''Paris''] 3))
   \<and> fst (get_current_question (fst (run [SubmitAnswer 3 1] (example_engine, example_rng)))
        example_rng) = Inr None"
proof -
  have l: "example_engine = load_questions engine_init [example_question] 100"
    by (simp add: example_engine_def)
  have a: "current_question (fst (run [] (example_engine, example_rng)))
             \<noteq> length (questions (fst (run [] (example_engine, example_rng))))"
    by (simp add: example_engine_fields)
  have b: "current_question (fst (run [SubmitAnswer 3 1] (example_engine, example_rng)))
             = length (questions (fst (run [SubmitAnswer 3 1] (example_engine, example_rng))))"
    by (simp add: example_submit_correct example_engine_fields)
  have r1: "fst (run [] (example_engine, example_rng))
              = fst (run [] (load_questions engine_init [example_question] 100, example_rng))"
    by (simp add: l)
  have r2: "fst (run [SubmitAnswer 3 1] (example_engine, example_rng))
              = fst (run [SubmitAnswer 3 1]
                  (load_questions engine_init [example_question] 100, example_rng))"
    by (simp add: l)
  from get_current_question_none_iff [OF r1, of example_rng] a
  have "fst (get_current_question (fst (run [] (example_engine, example_rng))) example_rng)
     = Inr (Some (present example_question [''Rome'', ''Oslo'', ''Bern'', ''Paris''] 3))"
    by (simp add: example_get_current_question)
  moreover from get_current_question_none_iff [OF r2, of example_rng] b
  have "fst (get_current_question (fst (run [SubmitAnswer 3 1] (example_engine, example_rng)))
          example_rng) = Inr None"
    by blast
  ultimately show ?thesis by simp
qed

lemma exec_call_questions:
  "session_call c \<Longrightarrow> questions (fst (exec_call c s)) = questions (fst s)"
  by (cases s; cases c) (simp_all add: submit_answer_keeps_questions)

lemma exec_call_position:
  "session_call c \<Longrightarrow> current_question (fst s) \<le> current_question (fst (exec_call c s))"
  by (cases s; cases c) (simp_all add: submit_answer_position)

lemma run_questions:
  "list_all session_call cs \<Longrightarrow> questions (fst (run cs s)) = questions (fst s)"
  by (induction cs arbitrary: s) (simp_all add: exec_call_questions)

text \<open>
  C8. After a load, through any calls other than a new load, the second component of
  \<^verbatim>\<open>get_progress\<close> stays the number of loaded questions; the first component never
  decreases under a call and never exceeds the second.
\<close>

theorem progress_total_fixed_position_monotone:
  assumes "list_all session_call cs" and "session_call c"
    and "s = run cs (load_questions e qs now, g)"
  shows "snd (get_progress (fst s)) = length qs
       \<and> snd (get_progress (fst (exec_call c s))) = length qs
       \<and> fst (get_progress (fst s)) \<le> fst (get_progress (fst (exec_call c s)))
       \<and> fst (get_progress (fst (exec_call c s))) \<le> snd (get_progress (fst (exec_call c s)))"
proof -
  have q: "questions (fst s) = qs"
    unfolding assms(3) using run_questions [OF assms(1)] by (simp add: questions_load)
  have q': "questions (fst (exec_call c s)) = qs"
    using exec_call_questions [OF assms(2), of s] q by simp
  have "session_inv (fst s)"
    unfolding assms(3) by (rule session_inv_run) (simp add: session_inv_load)
  then have "session_inv (fst (exec_call c s))" by (rule session_inv_exec)
  then have "current_question (fst (exec_call c s)) \<le> length (questions (fst (exec_call c s)))"
    by (simp add: session_inv_def)
  with q q' exec_call_position [OF assms(2), of s] show ?thesis
    by (simp add: get_progress_def)
qed

theorem progress_total_fixed_position_monotone_witness:
  "list_all session_call [GetProgress, GetCurrentQuestion, GetFinalResults 130]
   \<and> session_call (SubmitAnswer 3 1)
   \<and> get_progress (fst (run [GetProgress, GetCurrentQuestion, GetFinalResults 130]
        (example_engine, example_rng))) = (0, 1)
   \<and> snd (get_progress (fst (exec_call (SubmitAnswer 3 1)
        (run [GetProgress, GetCurrentQuestion, GetFinalResults 130]
          (example_engine, example_rng))))) = 1
   \<and> 0 \<le> fst (get_progress (fst (exec_call (SubmitAnswer 3 1)
        (run [GetProgress, GetCurrentQuestion, GetFinalResults 130]
          (example_engine, example_rng)))))
   \<and> fst (get_progress (fst (exec_call (SubmitAnswer 3 1)
        (run [GetProgress, GetCurrentQuestion, GetFinalResults 130]
          (example_engine, example_rng))))) \<le> 1"
proof -
  have h1: "list_all session_call [GetProgress, GetCurrentQuestion, GetFinalResults 130]"
    by simp
  have h2: "session_call (SubmitAnswer 3 1)" by simp
  have h3: "run [GetProgress, GetCurrentQuestion, GetFinalResults 130]
              (example_engine, example_rng)
          = run [GetProgress, GetCurrentQuestion, GetFinalResults 130]
              (load_questions engine_init [example_question] 100, example_rng)"
    by (simp add: example_engine_def)
  have p: "get_progress (fst (run [GetProgress, GetCurrentQuestion, GetFinalResults 130]
        (example_engine, example_rng))) = (0, 1)"
    by (simp add: get_progress_def example_engine_fields)
  from progress_total_fixed_position_monotone [OF h1 h2 h3] p h1 h2
  show ?thesis by simp
qed

section \<open>The final results\<close>

text \<open>
  C7. \<^verbatim>\<open>get_final_results\<close> never divides by zero: it always returns a result, whose
  percentage is 0 when there are no questions and \<open>100 * score / total\<close> otherwise, and
  whose average time is 0 when the timing log is empty and the mean of the log otherwise.
\<close>

theorem get_final_results_guards:
  "\<exists>r. get_final_results e now = Inr r
     \<and> r_percentage r =
         (if length (questions e) = 0 then 0
          else 100 * real (score e) / real (length (questions e)))
     \<and> r_average_time_per_question r =
         (if question_times e = [] then 0
          else sum_list (question_times e) / real (length (question_times e)))
     \<and> r_score r = score e \<and> r_total_questions r = length (questions e)
     \<and> r_user_answers r = user_answers e"
  by (simp add: get_final_results_def truediv_def)

section \<open>The stored questions are not touched\<close>

lemma get_current_question_h_in_progress:
  assumes "h_current_question e < length (qlists s ! h_questions e)"
    and "d = dicts s ! (qlists s ! h_questions e ! h_current_question e)"
    and "shuffle (strlists s ! o_incorrect_answers d @ [o_correct_answer d]) g = (sh, g')"
  shows "get_current_question_h e s g =
     (case list_index sh (o_correct_answer d) of
        Inl err \<Rightarrow>
          (Inl err,
           s\<lparr>dicts := dicts s @ [d\<lparr>o_shuffled_answers := Some (length (strlists s))\<rparr>],
             strlists := strlists s @ [sh]\<rparr>, g')
      | Inr ci \<Rightarrow>
          (Inr (Some (length (dicts s))),
           s\<lparr>dicts := dicts s @ [d\<lparr>o_shuffled_answers := Some (length (strlists s)),
                                    o_correct_index := Some ci\<rparr>],
             strlists := strlists s @ [sh]\<rparr>, g'))"
  using assms
  by (simp add: get_current_question_h_def dict_copy_def list_concat_def shuffle_in_place_def
      set_shuffled_answers_def set_correct_index_def Let_def split: sum.split)

lemma question_of_extended:
  assumes "a < length (dicts s)" and "o_incorrect_answers (dicts s ! a) < length (strlists s)"
  shows "question_of (s\<lparr>dicts := dicts s @ ds, strlists := strlists s @ ls\<rparr>) a = question_of s a"
  using assms by (simp add: question_of_def nth_append)

lemma engine_of_extended:
  assumes "wf_store e s"
  shows "engine_of e (s\<lparr>dicts := dicts s @ ds, strlists := strlists s @ ls\<rparr>) = engine_of e s"
proof -
  have "map (question_of (s\<lparr>dicts := dicts s @ ds, strlists := strlists s @ ls\<rparr>))
          (qlists s ! h_questions e)
        = map (question_of s) (qlists s ! h_questions e)"
    using assms by (intro map_cong refl question_of_extended)
      (simp_all add: wf_store_def list_all_iff)
  then show ?thesis by (simp add: engine_of_def)
qed

lemma question_of_stored:
  assumes "wf_store e s" and "h_current_question e < length (qlists s ! h_questions e)"
  shows "questions (engine_of e s) ! current_question (engine_of e s)
           = question_of s (qlists s ! h_questions e ! h_current_question e)"
  using assms by (simp add: engine_of_def)

text \<open>
  C10. \<^verbatim>\<open>get_current_question\<close> changes no engine state. On the store, every object that
  existed before the call is unchanged after it (the call only adds a dictionary and a
  list), so the engine reads the same questions, field by field, and the same position,
  score, timing log, answer history and start time. The dictionary it returns stands for
  the result of the value-level \<^verbatim>\<open>get_current_question\<close>.
\<close>

theorem get_current_question_changes_no_state:
  assumes "wf_store e s"
    and "get_current_question_h e s g = (r, s', g')"
  shows "engine_of e s' = engine_of e s
       \<and> qlists s' = qlists s
       \<and> take (length (dicts s)) (dicts s') = dicts s
       \<and> take (length (strlists s)) (strlists s') = strlists s
       \<and> get_current_question (engine_of e s) g = (result_of s' r, g')"
proof (cases "h_current_question e < length (qlists s ! h_questions e)")
  case False
  with assms(2) have "r = Inr None" "s' = s" "g' = g"
    by (simp_all add: get_current_question_h_def)
  moreover from False have "get_current_question (engine_of e s) g = (Inr None, g)"
    by (simp add: get_current_question_def engine_of_def)
  ultimately show ?thesis by simp
next
  case True
  define a where "a = qlists s ! h_questions e ! h_current_question e"
  define d where "d = dicts s ! a"
  obtain sh g1 where sh: "shuffle (strlists s ! o_incorrect_answers d @ [o_correct_answer d]) g
                            = (sh, g1)"
    by (cases "shuffle (strlists s ! o_incorrect_answers d @ [o_correct_answer d]) g")
  note h = get_current_question_h_in_progress [OF True d_def [unfolded a_def] sh]
  from assms(1) True have a: "a < length (dicts s)"
      "o_incorrect_answers d < length (strlists s)"
    by (simp_all add: wf_store_def list_all_length a_def d_def)
  have q: "questions (engine_of e s) ! current_question (engine_of e s) = question_of s a"
    using question_of_stored [OF assms(1) True] by (simp add: a_def)
  have cur: "current_question (engine_of e s) < length (questions (engine_of e s))"
    using True by (simp add: engine_of_def)
  have v: "get_current_question (engine_of e s) g =
             (case list_index sh (o_correct_answer d) of
                Inl err \<Rightarrow> (Inl err, g1)
              | Inr ci \<Rightarrow> (Inr (Some (present (question_of s a) sh ci)), g1))"
    using cur sh by (simp add: get_current_question_def q Let_def)
       (simp add: question_of_def d_def)
  show ?thesis
  proof (cases "list_index sh (o_correct_answer d)")
    case (Inl err)
    with h assms(2) have r: "r = Inl err" "g' = g1"
      and s': "s' = s\<lparr>dicts := dicts s @ [d\<lparr>o_shuffled_answers := Some (length (strlists s))\<rparr>],
                       strlists := strlists s @ [sh]\<rparr>"
      by simp_all
    from s' have "engine_of e s' = engine_of e s"
      by (simp add: engine_of_extended [OF assms(1)])
    with r s' v Inl show ?thesis by simp
  next
    case (Inr ci)
    with h assms(2) have r: "r = Inr (Some (length (dicts s)))" "g' = g1"
      and s': "s' = s\<lparr>dicts := dicts s @ [d\<lparr>o_shuffled_answers := Some (length (strlists s)),
                                              o_correct_index := Some ci\<rparr>],
                       strlists := strlists s @ [sh]\<rparr>"
      by simp_all
    from s' have e: "engine_of e s' = engine_of e s"
      by (simp add: engine_of_extended [OF assms(1)])
    have "presented_of s' (length (dicts s)) = Some (present (question_of s a) sh ci)"
      using a by (simp add: s' presented_of_def question_of_def present_def nth_append d_def)
    with r s' v Inr e show ?thesis by simp
  qed
qed

lemma zero_shuffle:
  "fst (shuffle [''Rome'', ''Oslo'', ''Bern'', ''Paris''] zero_rng) =
     [''Oslo'', ''Bern'', ''Paris'', ''Rome'']"
  by (simp add: shuffle_def randbelow_def swap_items_def zero_rng_def)

lemma example_store_wf: "wf_store example_engine_obj example_store"
  by (simp add: wf_store_def example_engine_obj_def example_store_def)

lemma example_engine_of: "engine_of example_engine_obj example_store = example_engine"
  by (simp add: engine_of_def example_engine_obj_def example_store_def question_of_def
      example_engine_def load_questions_def engine_init_def example_question_def)

theorem get_current_question_changes_no_state_witness:
  "wf_store example_engine_obj example_store
   \<and> fst (get_current_question_h example_engine_obj example_store zero_rng) = Inr (Some 1)
   \<and> strlists (fst (snd (get_current_question_h example_engine_obj example_store zero_rng)))
       = [[''Rome'', ''Oslo'', ''Bern''], [''Oslo'', ''Bern'', ''Paris'', ''Rome'']]
   \<and> take 1 (dicts (fst (snd (get_current_question_h example_engine_obj example_store zero_rng))))
       = dicts example_store
   \<and> engine_of example_engine_obj
        (fst (snd (get_current_question_h example_engine_obj example_store zero_rng)))
       = example_engine"
proof -
  obtain r s' g' where
    h: "get_current_question_h example_engine_obj example_store zero_rng = (r, s', g')"
    by (cases "get_current_question_h example_engine_obj example_store zero_rng")
  obtain g1 where sh: "shuffle [''Rome'', ''Oslo'', ''Bern'', ''Paris''] zero_rng
                         = ([''Oslo'', ''Bern'', ''Paris'', ''Rome''], g1)"
    using zero_shuffle by (cases "shuffle [''Rome'', ''Oslo'', ''Bern'', ''Paris''] zero_rng") simp
  have c: "r = Inr (Some 1)"
      "strlists s' = [[''Rome'', ''Oslo'', ''Bern''], [''Oslo'', ''Bern'', ''Paris'', ''Rome'']]"
    using h get_current_question_h_in_progress [of example_engine_obj example_store _ zero_rng, OF _ refl]
      sh
    by (auto simp add: example_engine_obj_def example_store_def)
  from get_current_question_changes_no_state [OF example_store_wf h]
  have "engine_of example_engine_obj s' = example_engine"
    and "take 1 (dicts s') = dicts example_store"
    by (simp_all add: example_engine_of) (simp add: example_store_def)
  with c h example_store_wf show ?thesis by simp
qed

end
